theory Spec2Isabelle
  imports Main
begin

section \<open>The LRU-IPV replacement policy of \<^verbatim>\<open>src/CacheReplacementPolicy/lru_ipv.cc\<close>\<close>

text \<open>
  The policy keeps, for every cache set, one recency stack shared by the ways of the set:
  a vector with one rank per way. The replacement data of a way holds the way's index
  into the vector and a shared pointer to it. The operations \<^verbatim>\<open>touch\<close>, \<^verbatim>\<open>reset\<close> and
  \<^verbatim>\<open>invalidate\<close> rewrite the vector in place; \<^verbatim>\<open>getVictim\<close> reads it.

  The header \<^verbatim>\<open>lru_ipv.hh\<close> is not part of the sources at hand. The values the code
  declares as \<^verbatim>\<open>uint64_t\<close> are natural numbers here; the only subtraction that can
  wrap, \<^verbatim>\<open>numWays - 1\<close> at \<^verbatim>\<open>numWays = 0\<close>, is written out in \<open>numWays_minus_1\<close>.
  Debug output (\<^verbatim>\<open>DPRINTF\<close>, \<^verbatim>\<open>printSharedState\<close>) has no effect on the state and is
  left out.
\<close>

subsection \<open>Data\<close>

text \<open>
  What can go wrong: \<^verbatim>\<open>std::vector::at\<close> throws \<^verbatim>\<open>std::out_of_range\<close>; an unchecked
  \<^verbatim>\<open>operator[]\<close> past the end of the promotion vector, the dereference of a null
  shared pointer and a remainder by zero are undefined behaviour; \<^verbatim>\<open>assert\<close> aborts.
\<close>

datatype error = OutOfRange | OutOfBounds | NullPointer | DivideByZero | AssertionFailed

text \<open>
  Modelled from the spec: the declarations of \<^verbatim>\<open>RecencyStack\<close>, \<^verbatim>\<open>LRUIPVReplData\<close> and the
  members of \<^verbatim>\<open>LRUIPVRP\<close> are in \<^verbatim>\<open>lru_ipv.hh\<close>, which is not under \<^verbatim>\<open>src/\<close>. The
  recency stack is the spec's fixed-length sequence of ranks, one per way; the replacement
  data has the spec's \<open>set_id\<close>, \<open>position\<close> and \<open>stack_ref\<close> under the names the
  constructor in \<^verbatim>\<open>lru_ipv.cc\<close> initialises (\<^verbatim>\<open>set_id\<close>, \<^verbatim>\<open>index\<close>, \<^verbatim>\<open>stack\<close>); the policy
  has the four members its constructor initialises.
\<close>

type_synonym RecencyStack = "nat list"

text \<open>The heap of recency stacks: a shared pointer is the position of its vector.\<close>

type_synonym heap = "RecencyStack list"

record LRUIPVReplData =
  set_id :: nat
  index :: nat
  stack :: "nat option"

text \<open>
  A replacement candidate is a \<^verbatim>\<open>ReplaceableEntry\<close>; the policy reads nothing of it
  but its \<^verbatim>\<open>replacementData\<close>.
\<close>

record ReplaceableEntry =
  replacementData :: LRUIPVReplData

record LRUIPVRP =
  numWays :: nat
  blockInstanceCounter :: nat
  tempStack :: "nat option"
  promotionVector :: "nat list"

definition vec_at :: "'a list \<Rightarrow> nat \<Rightarrow> error + 'a" where
  "vec_at xs i = (if i < length xs then Inr (xs ! i) else Inl OutOfRange)"

definition vec_index :: "'a list \<Rightarrow> nat \<Rightarrow> error + 'a" where
  "vec_index xs i = (if i < length xs then Inr (xs ! i) else Inl OutOfBounds)"

definition deref :: "heap \<Rightarrow> nat option \<Rightarrow> error + RecencyStack" where
  "deref h ptr =
     (case ptr of
        None \<Rightarrow> Inl NullPointer
      | Some a \<Rightarrow> if a < length h then Inr (h ! a) else Inl NullPointer)"

text \<open>A write through a shared pointer that \<open>deref\<close> has found valid.\<close>

definition store :: "heap \<Rightarrow> nat option \<Rightarrow> RecencyStack \<Rightarrow> heap" where
  "store h ptr s = (case ptr of None \<Rightarrow> h | Some a \<Rightarrow> h[a := s])"

text \<open>\<^verbatim>\<open>numWays - 1\<close> in unsigned 64-bit arithmetic.\<close>

definition numWays_minus_1 :: "nat \<Rightarrow> nat" where
  "numWays_minus_1 W = (if W = 0 then 2 ^ 64 - 1 else W - 1)"

subsection \<open>Construction\<close>

text \<open>
  \<^verbatim>\<open>isPowerOf2\<close> of gem5's \<^verbatim>\<open>base/intmath.hh\<close>: \<^verbatim>\<open>n && !(n & (n - 1))\<close>. The
  constructor passes its negation to a debug message and does nothing else with it.
\<close>

definition isPowerOf2 :: "nat \<Rightarrow> bool" where
  "isPowerOf2 n = (n \<noteq> 0 \<and> and n (n - 1) = 0)"

definition LRUIPVRP_ctor :: "nat \<Rightarrow> error + LRUIPVRP" where
  "LRUIPVRP_ctor p_numWays =
     Inr \<lparr>numWays = p_numWays, blockInstanceCounter = 0, tempStack = None,
          promotionVector = [0, 0, 1, 0, 3, 0, 1, 2, 1, 0, 5, 1, 0, 0, 1, 11, 13]\<rparr>"

text \<open>
  \<^verbatim>\<open>instantiateEntry\<close>: every \<^verbatim>\<open>numWays\<close>-th call allocates a new vector of
  \<^verbatim>\<open>numWays\<close> entries and fills it with \<^verbatim>\<open>std::iota\<close> from 0.
\<close>

definition instantiateEntry ::
  "LRUIPVRP \<Rightarrow> heap \<Rightarrow> error + (LRUIPVReplData \<times> LRUIPVRP \<times> heap)" where
  "instantiateEntry p h =
     (if numWays p = 0 then Inl DivideByZero
      else
        let fresh = (blockInstanceCounter p mod numWays p = 0);
            ts = (if fresh then Some (length h) else tempStack p);
            h' = (if fresh then h @ [[0 ..< numWays p]] else h);
            ipvReplData = \<lparr>set_id = blockInstanceCounter p div numWays p,
                           index = blockInstanceCounter p mod numWays p,
                           stack = ts\<rparr>
        in Inr (ipvReplData,
                p\<lparr>tempStack := ts, blockInstanceCounter := blockInstanceCounter p + 1\<rparr>,
                h'))"

subsection \<open>touch\<close>

text \<open>
  The loop \<^verbatim>\<open>int i = numWays; do { i--; ... } while (i > 0);\<close> The counter argument is
  the value of \<^verbatim>\<open>i\<close> before the decrement: at 0 the decrement gives \<open>-1\<close> and
  \<^verbatim>\<open>at(-1)\<close> throws. (\<^verbatim>\<open>numWays\<close> is taken to fit the \<^verbatim>\<open>int\<close>.) An exception can only
  come before the first write, so a failed call leaves no half-written vector behind.
\<close>

fun touch_loop :: "nat \<Rightarrow> nat \<Rightarrow> nat \<Rightarrow> nat \<Rightarrow> RecencyStack \<Rightarrow> error + RecencyStack" where
  "touch_loop W target_stack_val new_stack_val 0 s = Inl OutOfRange"
| "touch_loop W target_stack_val new_stack_val (Suc i) s =
     (case vec_at s i of
        Inl e \<Rightarrow> Inl e
      | Inr v \<Rightarrow>
          let currBlock_stack_val = (if v \<ge> W then numWays_minus_1 W else v);
              s' = (if currBlock_stack_val = target_stack_val then s[i := new_stack_val]
                    else if currBlock_stack_val \<ge> new_stack_val
                            \<and> currBlock_stack_val < target_stack_val
                         then s[i := currBlock_stack_val + 1]
                    else s)
          in if i > 0 then touch_loop W target_stack_val new_stack_val i s' else Inr s')"

definition touch :: "LRUIPVRP \<Rightarrow> LRUIPVReplData \<Rightarrow> heap \<Rightarrow> error + heap" where
  "touch p rd h =
     (case deref h (stack rd) of
        Inl e \<Rightarrow> Inl e
      | Inr s \<Rightarrow>
         (case vec_at s (index rd) of
            Inl e \<Rightarrow> Inl e
          | Inr v \<Rightarrow>
              let target_stack_val = (if v \<ge> numWays p then numWays_minus_1 (numWays p) else v)
              in (case vec_index (promotionVector p) target_stack_val of
                    Inl e \<Rightarrow> Inl e
                  | Inr new_stack_val \<Rightarrow>
                     (case touch_loop (numWays p) target_stack_val new_stack_val (numWays p) s of
                        Inl e \<Rightarrow> Inl e
                      | Inr s' \<Rightarrow> Inr (store h (stack rd) s')))))"

subsection \<open>reset\<close>

fun reset_loop :: "nat \<Rightarrow> nat \<Rightarrow> nat \<Rightarrow> nat \<Rightarrow> RecencyStack \<Rightarrow> error + RecencyStack" where
  "reset_loop W target_stack_val new_stack_val 0 s = Inl OutOfRange"
| "reset_loop W target_stack_val new_stack_val (Suc i) s =
     (case vec_at s i of
        Inl e \<Rightarrow> Inl e
      | Inr v \<Rightarrow>
          let currBlock_stack_val = (if v \<ge> W then numWays_minus_1 W else v);
              s' = (if currBlock_stack_val = target_stack_val then s[i := new_stack_val]
                    else if currBlock_stack_val \<ge> new_stack_val
                            \<and> currBlock_stack_val < target_stack_val
                         then s[i := currBlock_stack_val + 1]
                    else s)
          in if i > 0 then reset_loop W target_stack_val new_stack_val i s' else Inr s')"

definition reset :: "LRUIPVRP \<Rightarrow> LRUIPVReplData \<Rightarrow> heap \<Rightarrow> error + heap" where
  "reset p rd h =
     (case deref h (stack rd) of
        Inl e \<Rightarrow> Inl e
      | Inr s \<Rightarrow>
         (case vec_at s (index rd) of
            Inl e \<Rightarrow> Inl e
          | Inr v \<Rightarrow>
              let target_stack_val = (if v \<ge> numWays p then numWays_minus_1 (numWays p) else v)
              in (case vec_index (promotionVector p) 16 of
                    Inl e \<Rightarrow> Inl e
                  | Inr new_stack_val \<Rightarrow>
                     (case reset_loop (numWays p) target_stack_val new_stack_val (numWays p) s of
                        Inl e \<Rightarrow> Inl e
                      | Inr s' \<Rightarrow> Inr (store h (stack rd) s')))))"

subsection \<open>invalidate\<close>

fun invalidate_loop :: "nat \<Rightarrow> nat \<Rightarrow> nat \<Rightarrow> nat \<Rightarrow> RecencyStack \<Rightarrow> error + RecencyStack" where
  "invalidate_loop W target_stack_val new_stack_val 0 s = Inl OutOfRange"
| "invalidate_loop W target_stack_val new_stack_val (Suc i) s =
     (case vec_at s i of
        Inl e \<Rightarrow> Inl e
      | Inr currBlock_stack_val \<Rightarrow>
          let s' = (if currBlock_stack_val = target_stack_val then s[i := new_stack_val]
                    else if currBlock_stack_val > target_stack_val
                            \<and> currBlock_stack_val \<le> new_stack_val
                         then s[i := currBlock_stack_val - 1]
                    else s)
          in if i > 0 then invalidate_loop W target_stack_val new_stack_val i s' else Inr s')"

definition invalidate :: "LRUIPVRP \<Rightarrow> LRUIPVReplData \<Rightarrow> heap \<Rightarrow> error + heap" where
  "invalidate p rd h =
     (case deref h (stack rd) of
        Inl e \<Rightarrow> Inl e
      | Inr s \<Rightarrow>
         (case vec_at s (index rd) of
            Inl e \<Rightarrow> Inl e
          | Inr v \<Rightarrow>
              let target_stack_val = (if v \<ge> numWays p then numWays_minus_1 (numWays p) else v);
                  new_stack_val = numWays p
              in (case invalidate_loop (numWays p) target_stack_val new_stack_val (numWays p) s of
                    Inl e \<Rightarrow> Inl e
                  | Inr s' \<Rightarrow> Inr (store h (stack rd) s'))))"

subsection \<open>getVictim\<close>

text \<open>
  The range-for over the candidates, with the current \<^verbatim>\<open>victim\<close>. The heap is passed
  through, so that what the function leaves behind can be compared with what it found.
\<close>

fun getVictim_loop ::
  "LRUIPVRP \<Rightarrow> ReplaceableEntry list \<Rightarrow> ReplaceableEntry \<Rightarrow> heap
     \<Rightarrow> error + (ReplaceableEntry \<times> heap)" where
  "getVictim_loop p [] victim h = Inr (victim, h)"
| "getVictim_loop p (candidate # rest) victim h =
     (case deref h (stack (replacementData candidate)) of
        Inl e \<Rightarrow> Inl e
      | Inr s \<Rightarrow>
         (case vec_at s (index (replacementData candidate)) of
            Inl e \<Rightarrow> Inl e
          | Inr candidate_stack_value \<Rightarrow>
              getVictim_loop p rest
                (if candidate_stack_value \<ge> numWays_minus_1 (numWays p) then candidate
                 else victim) h))"

definition getVictim ::
  "LRUIPVRP \<Rightarrow> ReplaceableEntry list \<Rightarrow> heap \<Rightarrow> error + (ReplaceableEntry \<times> heap)" where
  "getVictim p candidates h =
     (case candidates of
        [] \<Rightarrow> Inl AssertionFailed
      | c0 # _ \<Rightarrow> getVictim_loop p candidates c0 h)"

subsection \<open>Vocabulary of the properties\<close>

text \<open>
  What one pass of the loop of \<^verbatim>\<open>touch\<close> and \<^verbatim>\<open>reset\<close> does to the entry it visits,
  and the same for \<^verbatim>\<open>invalidate\<close>. The loops are shown below to be the maps of these
  functions over the vector.
\<close>

definition touch_entry :: "nat \<Rightarrow> nat \<Rightarrow> nat \<Rightarrow> nat \<Rightarrow> nat" where
  "touch_entry W t n v =
     (let c = (if v \<ge> W then numWays_minus_1 W else v)
      in if c = t then n else if c \<ge> n \<and> c < t then c + 1 else v)"

definition invalidate_entry :: "nat \<Rightarrow> nat \<Rightarrow> nat \<Rightarrow> nat" where
  "invalidate_entry t n v = (if v = t then n else if v > t \<and> v \<le> n then v - 1 else v)"

text \<open>The steady-state invariant: the vector holds every rank below \<open>W\<close> once.\<close>

definition rank_permutation :: "nat \<Rightarrow> RecencyStack \<Rightarrow> bool" where
  "rank_permutation W s = (distinct s \<and> set s = {0 ..< W})"

text \<open>
  The calls the host cache makes on the ways of a set, one after the other; the first
  error ends the run, as the exception or the abort would.
\<close>

datatype access = Touch LRUIPVReplData | Reset LRUIPVReplData

fun way :: "access \<Rightarrow> LRUIPVReplData" where
  "way (Touch rd) = rd"
| "way (Reset rd) = rd"

fun apply_access :: "LRUIPVRP \<Rightarrow> access \<Rightarrow> heap \<Rightarrow> error + heap" where
  "apply_access p (Touch rd) h = touch p rd h"
| "apply_access p (Reset rd) h = reset p rd h"

fun apply_accesses :: "LRUIPVRP \<Rightarrow> access list \<Rightarrow> heap \<Rightarrow> error + heap" where
  "apply_accesses p [] h = Inr h"
| "apply_accesses p (x # xs) h =
     (case apply_access p x h of Inl e \<Rightarrow> Inl e | Inr h' \<Rightarrow> apply_accesses p xs h')"

text \<open>
  A run on the ways of the set whose vector is at \<open>a\<close> in which every fill is of a way
  whose rank, at the time of the fill, is not below the insertion rank
  \<^verbatim>\<open>promotionVector[16]\<close>. Nothing is asked of the calls' results.
\<close>

fun fills_promote :: "LRUIPVRP \<Rightarrow> nat \<Rightarrow> access list \<Rightarrow> heap \<Rightarrow> bool" where
  "fills_promote p a [] h = True"
| "fills_promote p a (x # xs) h =
     (stack (way x) = Some a \<and> index (way x) < numWays p
      \<and> (case x of Touch rd \<Rightarrow> True
                   | Reset rd \<Rightarrow> promotionVector p ! 16 \<le> h ! a ! index rd)
      \<and> (case apply_access p x h of Inl e \<Rightarrow> True | Inr h' \<Rightarrow> fills_promote p a xs h'))"

text \<open>
  The state an invalidation leaves: the vector has \<open>W\<close> entries, the entry of the way at
  position \<open>i\<close> is the sentinel \<open>W\<close> and no other entry is, and the other entries are
  pairwise distinct and are the ranks below \<open>W - 1\<close>.
\<close>

definition one_sentinel :: "nat \<Rightarrow> nat \<Rightarrow> RecencyStack \<Rightarrow> bool" where
  "one_sentinel W i s =
     (length s = W \<and> s ! i = W
      \<and> length (filter (\<lambda>e. e = W) s) = 1
      \<and> distinct (filter (\<lambda>e. e \<noteq> W) s)
      \<and> set (filter (\<lambda>e. e \<noteq> W) s) = {0 ..< W - 1})"

text \<open>No call of the run is on the way at position \<open>i\<close>.\<close>

definition spares :: "nat \<Rightarrow> access list \<Rightarrow> bool" where
  "spares i xs = list_all (\<lambda>x. index (way x) \<noteq> i) xs"

text \<open>The rank \<^verbatim>\<open>getVictim\<close> reads for a candidate, and its test on it.\<close>

definition candidate_rank :: "heap \<Rightarrow> ReplaceableEntry \<Rightarrow> error + nat" where
  "candidate_rank h c =
     (case deref h (stack (replacementData c)) of
        Inl e \<Rightarrow> Inl e
      | Inr s \<Rightarrow> vec_at s (index (replacementData c)))"

definition readable :: "heap \<Rightarrow> ReplaceableEntry \<Rightarrow> bool" where
  "readable h c = (case candidate_rank h c of Inl e \<Rightarrow> False | Inr v \<Rightarrow> True)"

definition evictable :: "LRUIPVRP \<Rightarrow> heap \<Rightarrow> ReplaceableEntry \<Rightarrow> bool" where
  "evictable p h c =
     (case candidate_rank h c of
        Inl e \<Rightarrow> False
      | Inr v \<Rightarrow> v \<ge> numWays_minus_1 (numWays p))"

subsection \<open>The loops as maps over the vector\<close>

lemma step_shape:
  assumes "i < length s"
  shows "map f (take i (s[i := f (s ! i)])) @ drop i (s[i := f (s ! i)])
         = map f (take (Suc i) s) @ drop (Suc i) s"
  using assms by (simp add: take_Suc_conv_app_nth drop_update_swap upd_conv_take_nth_drop)

lemma step_shape_0:
  assumes "0 < length s"
  shows "s[0 := f (s ! 0)] = map f (take (Suc 0) s) @ drop (Suc 0) s"
  using assms by (cases s) simp_all

lemma touch_entry_update:
  "(let c = (if s ! i \<ge> W then numWays_minus_1 W else s ! i)
    in if c = t then s[i := n]
       else if c \<ge> n \<and> c < t then s[i := c + 1] else s)
   = s[i := touch_entry W t n (s ! i)]"
proof -
  have id: "s[i := s ! i] = s" by (rule list_update_id)
  show ?thesis
    unfolding touch_entry_def Let_def
    by (simp only: id if_distrib [of "\<lambda>x. s[i := x]"] split: if_splits)
qed

lemma touch_loop_Suc:
  assumes "i < length s"
  shows "touch_loop W t n (Suc i) s =
           (if i > 0 then touch_loop W t n i (s[i := touch_entry W t n (s ! i)])
            else Inr (s[i := touch_entry W t n (s ! i)]))"
proof -
  have "vec_at s i = Inr (s ! i)" using assms by (simp add: vec_at_def)
  then show ?thesis
    by (simp only: touch_loop.simps sum.case Let_def touch_entry_update [unfolded Let_def])
qed

lemma touch_loop_prefix:
  "0 < i \<Longrightarrow> i \<le> length s \<Longrightarrow>
   touch_loop W t n i s = Inr (map (touch_entry W t n) (take i s) @ drop i s)"
proof (induction i arbitrary: s)
  case 0
  then show ?case by simp
next
  case (Suc i)
  let ?f = "touch_entry W t n"
  let ?s' = "s[i := ?f (s ! i)]"
  from Suc.prems have lt: "i < length s" by simp
  show ?case
  proof (cases "i > 0")
    case True
    have "touch_loop W t n i ?s' = Inr (map ?f (take i ?s') @ drop i ?s')"
      using Suc.IH [of ?s'] True lt by simp
    then show ?thesis
      using True step_shape [OF lt, of ?f] by (simp only: touch_loop_Suc [OF lt] if_True)
  next
    case False
    then have i0: "i = 0" by simp
    have "touch_loop W t n (Suc 0) s = Inr (s[0 := ?f (s ! 0)])"
      using touch_loop_Suc [of 0 s W t n] lt i0 by (simp only: less_irrefl if_False)
    then show ?thesis
      using lt i0 step_shape_0 [of s ?f] by (simp only:)
  qed
qed

lemma touch_loop_map:
  "0 < length s \<Longrightarrow> touch_loop W t n (length s) s = Inr (map (touch_entry W t n) s)"
  using touch_loop_prefix [of "length s" s W t n] by simp

lemma reset_loop_touch_loop: "reset_loop W t n i s = touch_loop W t n i s"
  by (induction i arbitrary: s) (simp_all add: Let_def split: sum.splits)

lemma invalidate_entry_update:
  "(if s ! i = t then s[i := n]
    else if s ! i > t \<and> s ! i \<le> n then s[i := s ! i - 1] else s)
   = s[i := invalidate_entry t n (s ! i)]"
proof -
  have id: "s[i := s ! i] = s" by (rule list_update_id)
  show ?thesis
    unfolding invalidate_entry_def
    by (simp only: id if_distrib [of "\<lambda>x. s[i := x]"] split: if_splits)
qed

lemma invalidate_loop_Suc:
  assumes "i < length s"
  shows "invalidate_loop W t n (Suc i) s =
           (if i > 0 then invalidate_loop W t n i (s[i := invalidate_entry t n (s ! i)])
            else Inr (s[i := invalidate_entry t n (s ! i)]))"
proof -
  have "vec_at s i = Inr (s ! i)" using assms by (simp add: vec_at_def)
  then show ?thesis
    by (simp only: invalidate_loop.simps sum.case Let_def invalidate_entry_update)
qed

lemma invalidate_loop_prefix:
  "0 < i \<Longrightarrow> i \<le> length s \<Longrightarrow>
   invalidate_loop W t n i s = Inr (map (invalidate_entry t n) (take i s) @ drop i s)"
proof (induction i arbitrary: s)
  case 0
  then show ?case by simp
next
  case (Suc i)
  let ?f = "invalidate_entry t n"
  let ?s' = "s[i := ?f (s ! i)]"
  from Suc.prems have lt: "i < length s" by simp
  show ?case
  proof (cases "i > 0")
    case True
    have "invalidate_loop W t n i ?s' = Inr (map ?f (take i ?s') @ drop i ?s')"
      using Suc.IH [of ?s'] True lt by simp
    then show ?thesis
      using True step_shape [OF lt, of ?f] by (simp only: invalidate_loop_Suc [OF lt] if_True)
  next
    case False
    then have i0: "i = 0" by simp
    have "invalidate_loop W t n (Suc 0) s = Inr (s[0 := ?f (s ! 0)])"
      using invalidate_loop_Suc [of 0 s W t n] lt i0 by (simp only: less_irrefl if_False)
    then show ?thesis
      using lt i0 step_shape_0 [of s ?f] by (simp only:)
  qed
qed

lemma invalidate_loop_map:
  "0 < length s \<Longrightarrow>
   invalidate_loop W t n (length s) s = Inr (map (invalidate_entry t n) s)"
  using invalidate_loop_prefix [of "length s" s W t n] by simp

subsection \<open>The operations on a heap\<close>

lemma numWays_minus_1_pos: "0 < W \<Longrightarrow> numWays_minus_1 W = W - 1"
  by (simp add: numWays_minus_1_def)

lemma touch_heap:
  assumes "stack rd = Some a" and "a < length h" and "length (h ! a) = numWays p"
    and "index rd < numWays p"
    and "t = (if h ! a ! index rd \<ge> numWays p then numWays_minus_1 (numWays p)
              else h ! a ! index rd)"
    and "t < length (promotionVector p)"
  shows "touch p rd h =
           Inr (h[a := map (touch_entry (numWays p) t (promotionVector p ! t)) (h ! a)])"
proof -
  have d: "deref h (stack rd) = Inr (h ! a)"
    using assms(1,2) by (simp add: deref_def)
  have v: "vec_at (h ! a) (index rd) = Inr (h ! a ! index rd)"
    using assms(3,4) by (simp add: vec_at_def)
  have pv: "vec_index (promotionVector p) t = Inr (promotionVector p ! t)"
    using assms(6) by (simp add: vec_index_def)
  have lp: "touch_loop (numWays p) t (promotionVector p ! t) (numWays p) (h ! a)
            = Inr (map (touch_entry (numWays p) t (promotionVector p ! t)) (h ! a))"
    using touch_loop_map [of "h ! a"] assms(3,4) by simp
  show ?thesis
    unfolding touch_def d v sum.case Let_def assms(5) [symmetric] pv lp
    by (simp add: store_def assms(1))
qed

lemma reset_heap:
  assumes "stack rd = Some a" and "a < length h" and "length (h ! a) = numWays p"
    and "index rd < numWays p"
    and "t = (if h ! a ! index rd \<ge> numWays p then numWays_minus_1 (numWays p)
              else h ! a ! index rd)"
    and "16 < length (promotionVector p)"
  shows "reset p rd h =
           Inr (h[a := map (touch_entry (numWays p) t (promotionVector p ! 16)) (h ! a)])"
proof -
  have d: "deref h (stack rd) = Inr (h ! a)"
    using assms(1,2) by (simp add: deref_def)
  have v: "vec_at (h ! a) (index rd) = Inr (h ! a ! index rd)"
    using assms(3,4) by (simp add: vec_at_def)
  have pv: "vec_index (promotionVector p) 16 = Inr (promotionVector p ! 16)"
    using assms(6) by (simp add: vec_index_def)
  have lp: "reset_loop (numWays p) t (promotionVector p ! 16) (numWays p) (h ! a)
            = Inr (map (touch_entry (numWays p) t (promotionVector p ! 16)) (h ! a))"
    using touch_loop_map [of "h ! a"] assms(3,4) by (simp add: reset_loop_touch_loop)
  show ?thesis
    unfolding reset_def d v sum.case Let_def assms(5) [symmetric] pv lp
    by (simp add: store_def assms(1))
qed

lemma invalidate_heap:
  assumes "stack rd = Some a" and "a < length h" and "length (h ! a) = numWays p"
    and "index rd < numWays p"
    and "t = (if h ! a ! index rd \<ge> numWays p then numWays_minus_1 (numWays p)
              else h ! a ! index rd)"
  shows "invalidate p rd h =
           Inr (h[a := map (invalidate_entry t (numWays p)) (h ! a)])"
proof -
  have d: "deref h (stack rd) = Inr (h ! a)"
    using assms(1,2) by (simp add: deref_def)
  have v: "vec_at (h ! a) (index rd) = Inr (h ! a ! index rd)"
    using assms(3,4) by (simp add: vec_at_def)
  have lp: "invalidate_loop (numWays p) t (numWays p) (numWays p) (h ! a)
            = Inr (map (invalidate_entry t (numWays p)) (h ! a))"
    using invalidate_loop_map [of "h ! a"] assms(3,4) by simp
  show ?thesis
    unfolding invalidate_def d v sum.case Let_def assms(5) [symmetric] lp
    by (simp add: store_def assms(1))
qed

subsection \<open>Promotion keeps a permutation\<close>

lemma rank_permutation_length: "rank_permutation W s \<Longrightarrow> length s = W"
  unfolding rank_permutation_def using distinct_card [of s] by simp

lemma rank_permutation_nth: "rank_permutation W s \<Longrightarrow> i < W \<Longrightarrow> s ! i < W"
  using rank_permutation_length [of W s] nth_mem [of i s]
  by (auto simp: rank_permutation_def)

lemma touch_entry_valid:
  "v < W \<Longrightarrow> touch_entry W t n v = (if v = t then n else if n \<le> v \<and> v < t then v + 1 else v)"
  by (simp add: touch_entry_def)

lemma touch_entry_inj:
  assumes "n \<le> t" and "t < W"
  shows "inj_on (touch_entry W t n) {0 ..< W}"
  using assms by (auto intro!: inj_onI simp: touch_entry_valid split: if_splits)

lemma touch_entry_range:
  assumes "n \<le> t" and "t < W"
  shows "touch_entry W t n ` {0 ..< W} \<subseteq> {0 ..< W}"
  using assms by (auto simp: touch_entry_valid)

lemma touch_entry_permutation:
  assumes "rank_permutation W s" and "n \<le> t" and "t < W"
  shows "rank_permutation W (map (touch_entry W t n) s)"
proof -
  have img: "touch_entry W t n ` {0 ..< W} = {0 ..< W}"
    by (rule endo_inj_surj [OF _ touch_entry_range [OF assms(2,3)] touch_entry_inj [OF assms(2,3)]])
       simp
  have "distinct (map (touch_entry W t n) s)"
    using assms(1) touch_entry_inj [OF assms(2,3)]
    by (simp add: rank_permutation_def distinct_map)
  with img assms(1) show ?thesis
    by (simp add: rank_permutation_def)
qed

subsection \<open>The constructed policy\<close>

lemma ctor_fields:
  assumes "LRUIPVRP_ctor W = Inr p"
  shows "numWays p = W"
    and "promotionVector p = [0, 0, 1, 0, 3, 0, 1, 2, 1, 0, 5, 1, 0, 0, 1, 11, 13]"
  using assms by (auto simp: LRUIPVRP_ctor_def)

lemma paper_vector_entries: "\<forall>r \<in> set [0, 1, 2, 3, 4, 5, 6, 7, 8, 9, 10, 11, 12, 13, 14, 15, 16 :: nat].
   [0, 0, 1, 0, 3, 0, 1, 2, 1, 0, 5, 1, 0, 0, 1, 11, 13 :: nat] ! r \<le> r"
  by (simp add: eval_nat_numeral)

lemma upt_17: "[0 ..< 17] = [0, 1, 2, 3, 4, 5, 6, 7, 8, 9, 10, 11, 12, 13, 14, 15, 16 :: nat]"
  by code_simp

lemma paper_vector_promotes:
  assumes "r < 17"
  shows "[0, 0, 1, 0, 3, 0, 1, 2, 1, 0, 5, 1, 0, 0, 1, 11, 13 :: nat] ! r \<le> r"
proof -
  from assms have "r \<in> set [0 ..< 17]" by simp
  then have "r \<in> set [0, 1, 2, 3, 4, 5, 6, 7, 8, 9, 10, 11, 12, 13, 14, 15, 16 :: nat]"
    by (simp only: upt_17)
  with paper_vector_entries show ?thesis by (rule bspec)
qed

lemma heap_update_same: "a < length h \<Longrightarrow> h[a := s] ! a = s"
  by simp

subsection \<open>touch\<close>

text \<open>
  Where the rank of the touched way is within the promotion vector: on a stack that is a
  permutation of the ranks below \<^verbatim>\<open>numWays\<close>, \<^verbatim>\<open>touch\<close> on a way of rank \<open>r\<close>, with \<open>n\<close> the
  entry of the promotion vector at \<open>r\<close>, returns, and the stack it leaves has \<open>n\<close> where
  \<open>r\<close> was, every entry from \<open>n\<close> up to but excluding \<open>r\<close> incremented, and every other
  entry as before. With four ways, the touch of the way at position 2 of \<open>[0, 1, 2, 3]\<close>
  leaves \<open>[0, 2, 1, 3]\<close>.
\<close>

lemma touch_rewrites_ranks:
  assumes "stack rd = Some a" and "a < length h"
    and "rank_permutation (numWays p) (h ! a)"
    and "index rd < numWays p"
    and "r = h ! a ! index rd"
    and "r < length (promotionVector p)"
    and "n = promotionVector p ! r"
  shows "touch p rd h =
           Inr (h[a := map (\<lambda>e. if e = r then n else if n \<le> e \<and> e < r then e + 1 else e)
                          (h ! a)])"
proof -
  let ?W = "numWays p"
  have len: "length (h ! a) = ?W"
    using assms(3) by (rule rank_permutation_length)
  have rW: "r < ?W"
    using assms(3,4,5) by (simp add: rank_permutation_nth)
  have t: "r = (if h ! a ! index rd \<ge> ?W then numWays_minus_1 ?W else h ! a ! index rd)"
    using rW assms(5) by simp
  have eq: "map (touch_entry ?W r n) (h ! a)
            = map (\<lambda>e. if e = r then n else if n \<le> e \<and> e < r then e + 1 else e) (h ! a)"
  proof (rule map_cong [OF refl])
    fix e assume "e \<in> set (h ! a)"
    then have "e < ?W" using assms(3) by (simp add: rank_permutation_def)
    then show "touch_entry ?W r n e
               = (if e = r then n else if n \<le> e \<and> e < r then e + 1 else e)"
      by (rule touch_entry_valid)
  qed
  have "touch p rd h = Inr (h[a := map (touch_entry ?W r n) (h ! a)])"
    using touch_heap [OF assms(1,2) len assms(4) t assms(6)] assms(7) by simp
  then show ?thesis
    by (simp only: eq)
qed

lemma touch_scenario_four_ways:
  "rank_permutation 4 [0, 1, 2, 3]
   \<and> promotionVector (projr (LRUIPVRP_ctor 4)) ! 2 = 1
   \<and> touch (projr (LRUIPVRP_ctor 4)) \<lparr>set_id = 0, index = 2, stack = Some 0\<rparr> [[0, 1, 2, 3]]
       = Inr [[0, 2, 1, 3]]"
proof -
  have perm: "rank_permutation (numWays (projr (LRUIPVRP_ctor 4))) ([[0, 1, 2, 3]] ! 0)"
    by (auto simp: rank_permutation_def LRUIPVRP_ctor_def)
  show ?thesis
    using perm
      touch_rewrites_ranks [of "\<lparr>set_id = 0, index = 2, stack = Some 0\<rparr>" 0 "[[0, 1, 2, 3]]"
        "projr (LRUIPVRP_ctor 4)" 2 1]
    by (simp add: LRUIPVRP_ctor_def)
qed

text \<open>
  C4 does not hold of the code for every permutation stack. The promotion vector has 17
  entries whatever \<^verbatim>\<open>numWays\<close> is, and \<^verbatim>\<open>touch\<close> indexes it with the rank of the touched
  way without a check: with 32 ways, the touch of the way of rank 20 of the identity
  stack reads past the end of the vector.
\<close>

theorem touch_reads_past_promotionVector:
  "rank_permutation 32 [0 ..< 32]
   \<and> [0 ..< 32] ! 20 = 20
   \<and> length (promotionVector (projr (LRUIPVRP_ctor 32))) = 17
   \<and> touch (projr (LRUIPVRP_ctor 32)) \<lparr>set_id = 0, index = 20, stack = Some 0\<rparr> [[0 ..< 32]]
     = Inl OutOfBounds"
proof -
  have "rank_permutation 32 [0 ..< 32]"
    by (simp add: rank_permutation_def)
  moreover have "[0 ..< 32] ! 20 = (20 :: nat)"
    by simp
  moreover have "length (promotionVector (projr (LRUIPVRP_ctor 32))) = 17"
    by (simp add: LRUIPVRP_ctor_def)
  moreover have "touch (projr (LRUIPVRP_ctor 32)) \<lparr>set_id = 0, index = 20, stack = Some 0\<rparr>
                   [[0 ..< 32]] = Inl OutOfBounds"
    by (simp add: LRUIPVRP_ctor_def touch_def deref_def vec_at_def vec_index_def
        del: upt_rec_numeral)
  ultimately show ?thesis
    by (intro conjI)
qed

subsection \<open>reset\<close>

text \<open>
  C2 does not hold of the code. \<^verbatim>\<open>reset\<close> reads the new rank at the literal position 16
  of the promotion vector, not at \<^verbatim>\<open>numWays\<close>: with four ways, the fill of the way of rank
  3 of the identity stack gives that way the rank 13, the entry at position 16, where the
  entry at position \<^verbatim>\<open>numWays\<close> is 3. The rank 13 is neither a rank below \<^verbatim>\<open>numWays\<close> nor
  the sentinel \<^verbatim>\<open>numWays\<close> that \<^verbatim>\<open>invalidate\<close> writes.
\<close>

theorem reset_reads_entry_16_with_four_ways:
  "reset (projr (LRUIPVRP_ctor 4)) \<lparr>set_id = 0, index = 3, stack = Some 0\<rparr> [[0, 1, 2, 3]]
   = Inr [[0, 1, 2, 13]]
   \<and> promotionVector (projr (LRUIPVRP_ctor 4)) ! numWays (projr (LRUIPVRP_ctor 4)) = 3
   \<and> promotionVector (projr (LRUIPVRP_ctor 4)) ! 16 = 13
   \<and> numWays (projr (LRUIPVRP_ctor 4)) = 4"
  by (simp add: LRUIPVRP_ctor_def reset_def deref_def vec_at_def vec_index_def store_def
      numWays_minus_1_def eval_nat_numeral)

subsection \<open>Runs of touch and reset\<close>

lemma rank_permutation_iota: "rank_permutation W [0 ..< W]"
  by (simp add: rank_permutation_def)

lemma touch_keeps_permutation:
  assumes "LRUIPVRP_ctor W = Inr p" and "W \<le> 17"
    and "stack rd = Some a" and "a < length h"
    and "rank_permutation W (h ! a)" and "index rd < W"
  shows "\<exists>h'. touch p rd h = Inr h' \<and> length h' = length h \<and> rank_permutation W (h' ! a)"
proof -
  let ?r = "h ! a ! index rd"
  have W: "numWays p = W"
    using assms(1) by (rule ctor_fields)
  have pv: "promotionVector p = [0, 0, 1, 0, 3, 0, 1, 2, 1, 0, 5, 1, 0, 0, 1, 11, 13]"
    using assms(1) by (rule ctor_fields)
  have rW: "?r < W"
    using assms(5,6) by (rule rank_permutation_nth)
  then have r17: "?r < 17"
    using assms(2) by simp
  have le: "promotionVector p ! ?r \<le> ?r"
    unfolding pv using r17 by (rule paper_vector_promotes)
  have t: "touch p rd h
           = Inr (h[a := map (touch_entry (numWays p) ?r (promotionVector p ! ?r)) (h ! a)])"
    by (rule touch_heap [OF assms(3,4)])
       (insert rW r17 assms(5,6), simp_all add: W pv rank_permutation_length)
  have "rank_permutation W (map (touch_entry W ?r (promotionVector p ! ?r)) (h ! a))"
    using assms(5) le rW by (rule touch_entry_permutation)
  then show ?thesis
    using t assms(4) by (simp add: W)
qed

lemma reset_keeps_permutation:
  assumes "LRUIPVRP_ctor W = Inr p"
    and "stack rd = Some a" and "a < length h"
    and "rank_permutation W (h ! a)" and "index rd < W"
    and "promotionVector p ! 16 \<le> h ! a ! index rd"
  shows "\<exists>h'. reset p rd h = Inr h' \<and> length h' = length h \<and> rank_permutation W (h' ! a)"
proof -
  let ?r = "h ! a ! index rd"
  have W: "numWays p = W"
    using assms(1) by (rule ctor_fields)
  have pv: "promotionVector p = [0, 0, 1, 0, 3, 0, 1, 2, 1, 0, 5, 1, 0, 0, 1, 11, 13]"
    using assms(1) by (rule ctor_fields)
  have rW: "?r < W"
    using assms(4,5) by (rule rank_permutation_nth)
  have t: "reset p rd h
           = Inr (h[a := map (touch_entry (numWays p) ?r (promotionVector p ! 16)) (h ! a)])"
    by (rule reset_heap [OF assms(2,3)])
       (insert rW assms(4,5), simp_all add: W pv rank_permutation_length)
  have "rank_permutation W (map (touch_entry W ?r (promotionVector p ! 16)) (h ! a))"
    using assms(4,6) rW by (rule touch_entry_permutation)
  then show ?thesis
    using t assms(3) by (simp add: W)
qed

lemma apply_accesses_permutation:
  assumes "LRUIPVRP_ctor W = Inr p" and "W \<le> 17"
  shows "a < length h \<Longrightarrow> rank_permutation W (h ! a) \<Longrightarrow> fills_promote p a xs h \<Longrightarrow>
         \<exists>h'. apply_accesses p xs h = Inr h' \<and> rank_permutation W (h' ! a)"
proof (induction xs arbitrary: h)
  case Nil
  then show ?case by simp
next
  case (Cons x xs)
  have W: "numWays p = W"
    using assms(1) by (rule ctor_fields)
  from Cons.prems(3) have ptr: "stack (way x) = Some a" and idx: "index (way x) < W"
    by (simp_all add: W)
  have "\<exists>h1. apply_access p x h = Inr h1 \<and> length h1 = length h \<and> rank_permutation W (h1 ! a)"
  proof (cases x)
    case (Touch rd)
    then show ?thesis
      using touch_keeps_permutation [OF assms, of rd a h] ptr idx Cons.prems(1,2) by simp
  next
    case (Reset rd)
    then show ?thesis
      using reset_keeps_permutation [OF assms(1), of rd a h] ptr idx Cons.prems by simp
  qed
  then obtain h1 where h1: "apply_access p x h = Inr h1" "length h1 = length h"
      "rank_permutation W (h1 ! a)"
    by blast
  from Cons.prems(3) h1(1) have "fills_promote p a xs h1"
    by simp
  from Cons.IH [OF _ h1(3) this] Cons.prems(1) h1(2)
  obtain h' where "apply_accesses p xs h1 = Inr h'" "rank_permutation W (h' ! a)"
    by auto
  with h1(1) show ?case
    by simp
qed

text \<open>
  C1, as the code has it. On a policy as constructed with at most 17 ways (the promotion
  vector has 17 entries), every run of \<^verbatim>\<open>touch\<close> and \<^verbatim>\<open>reset\<close> calls on the ways of a set
  that starts from the identity stack, and in which every \<^verbatim>\<open>reset\<close> is of a way whose rank
  is at that time not below the insertion rank \<^verbatim>\<open>promotionVector[16]\<close>, returns, and the
  stack it leaves is a permutation of the ranks below \<^verbatim>\<open>numWays\<close>.
\<close>

theorem promoting_runs_keep_permutation:
  assumes "LRUIPVRP_ctor W = Inr p" and "W \<le> 17"
    and "a < length h" and "h ! a = [0 ..< W]"
    and "fills_promote p a xs h"
  shows "\<exists>h'. apply_accesses p xs h = Inr h' \<and> rank_permutation W (h' ! a)"
proof -
  have "rank_permutation W (h ! a)"
    unfolding assms(4) by (rule rank_permutation_iota)
  with assms(3) show ?thesis
    using assms(5) by (rule apply_accesses_permutation [OF assms(1,2)])
qed

theorem promoting_runs_keep_permutation_witness:
  "apply_accesses (projr (LRUIPVRP_ctor 16))
     [Reset \<lparr>set_id = 0, index = 15, stack = Some 0\<rparr>,
      Touch \<lparr>set_id = 0, index = 2, stack = Some 0\<rparr>,
      Reset \<lparr>set_id = 0, index = 14, stack = Some 0\<rparr>]
     [[0 ..< 16]]
   = Inr [[0, 2, 1, 3, 4, 5, 6, 7, 8, 9, 10, 11, 12, 15, 13, 14]]
   \<and> rank_permutation 16 [0, 2, 1, 3, 4, 5, 6, 7, 8, 9, 10, 11, 12, 15, 13, 14]"
proof -
  let ?p = "projr (LRUIPVRP_ctor 16)"
  let ?xs = "[Reset \<lparr>set_id = 0, index = 15, stack = Some 0\<rparr>,
              Touch \<lparr>set_id = 0, index = 2, stack = Some 0\<rparr>,
              Reset \<lparr>set_id = 0, index = 14, stack = Some 0\<rparr>]"
  have c: "LRUIPVRP_ctor 16 = Inr ?p"
    by (simp add: LRUIPVRP_ctor_def)
  have run: "apply_accesses ?p ?xs [[0 ..< 16]]
             = Inr [[0, 2, 1, 3, 4, 5, 6, 7, 8, 9, 10, 11, 12, 15, 13, 14]]"
    by (simp add: LRUIPVRP_ctor_def touch_def reset_def deref_def vec_at_def vec_index_def
        store_def numWays_minus_1_def eval_nat_numeral)
  have adm: "fills_promote ?p 0 ?xs [[0 ..< 16]]"
    by (simp add: LRUIPVRP_ctor_def touch_def reset_def deref_def vec_at_def vec_index_def
        store_def numWays_minus_1_def eval_nat_numeral)
  show ?thesis
    using promoting_runs_keep_permutation [OF c _ _ _ adm] run by simp
qed

text \<open>
  C1 as stated fails: with sixteen ways, the fill of the way of rank 0 of the identity
  stack leaves rank 13 twice and rank 0 nowhere.
\<close>

theorem fill_breaks_permutation_counterexample:
  "[0 ..< 16] = [0, 1, 2, 3, 4, 5, 6, 7, 8, 9, 10, 11, 12, 13, 14, 15]
   \<and> apply_accesses (projr (LRUIPVRP_ctor 16))
       [Reset \<lparr>set_id = 0, index = 0, stack = Some 0\<rparr>]
       [[0, 1, 2, 3, 4, 5, 6, 7, 8, 9, 10, 11, 12, 13, 14, 15]]
     = Inr [[13, 1, 2, 3, 4, 5, 6, 7, 8, 9, 10, 11, 12, 13, 14, 15]]
   \<and> \<not> rank_permutation 16 [13, 1, 2, 3, 4, 5, 6, 7, 8, 9, 10, 11, 12, 13, 14, 15]"
proof -
  have "[0 ..< 16] = [0, 1, 2, 3, 4, 5, 6, 7, 8, 9, 10, 11, 12, 13, 14, 15 :: nat]"
    by code_simp
  moreover have "apply_accesses (projr (LRUIPVRP_ctor 16))
       [Reset \<lparr>set_id = 0, index = 0, stack = Some 0\<rparr>]
       [[0, 1, 2, 3, 4, 5, 6, 7, 8, 9, 10, 11, 12, 13, 14, 15]]
     = Inr [[13, 1, 2, 3, 4, 5, 6, 7, 8, 9, 10, 11, 12, 13, 14, 15]]"
    by (simp add: LRUIPVRP_ctor_def reset_def deref_def vec_at_def vec_index_def
        store_def numWays_minus_1_def eval_nat_numeral)
  moreover have "\<not> rank_permutation 16 [13, 1, 2, 3, 4, 5, 6, 7, 8, 9, 10, 11, 12, 13, 14, 15]"
    by (simp add: rank_permutation_def)
  ultimately show ?thesis
    by (simp only: simp_thms)
qed

subsection \<open>invalidate\<close>

text \<open>
  C5, as the code has it. On a stack of \<^verbatim>\<open>numWays\<close> entries, \<^verbatim>\<open>invalidate\<close> on a way whose
  rank, clamped to \<^verbatim>\<open>numWays - 1\<close>, is \<open>r\<close> returns, and the stack it leaves has the
  sentinel \<^verbatim>\<open>numWays\<close> where \<open>r\<close> was, every entry above \<open>r\<close> and not above the sentinel
  decremented, and every other entry, those above the sentinel too, as before. The
  witness is the scenario of four ways: on \<open>[0, 1, 2, 3]\<close> the invalidation of the way at
  position 1 leaves \<open>[0, 4, 1, 2]\<close>.
\<close>

theorem invalidate_rewrites_ranks:
  assumes "stack rd = Some a" and "a < length h"
    and "length (h ! a) = numWays p"
    and "index rd < numWays p"
    and "r = (if h ! a ! index rd \<ge> numWays p then numWays p - 1 else h ! a ! index rd)"
  shows "invalidate p rd h =
           Inr (h[a := map (\<lambda>e. if e = r then numWays p
                                 else if r < e \<and> e \<le> numWays p then e - 1 else e)
                          (h ! a)])"
proof -
  have pos: "0 < numWays p"
    using assms(4) by simp
  have t: "r = (if h ! a ! index rd \<ge> numWays p then numWays_minus_1 (numWays p)
                else h ! a ! index rd)"
    using assms(5) by (simp only: numWays_minus_1_pos [OF pos])
  have "invalidate_entry r (numWays p)
        = (\<lambda>e. if e = r then numWays p else if r < e \<and> e \<le> numWays p then e - 1 else e)"
    by (rule ext) (simp add: invalidate_entry_def)
  then show ?thesis
    using invalidate_heap [OF assms(1,2,3,4) t] by (simp only:)
qed

theorem invalidate_rewrites_ranks_witness:
  "invalidate (projr (LRUIPVRP_ctor 4)) \<lparr>set_id = 0, index = 1, stack = Some 0\<rparr>
     [[0, 1, 2, 3]]
   = Inr [[0, 4, 1, 2]]"
  using invalidate_rewrites_ranks [of "\<lparr>set_id = 0, index = 1, stack = Some 0\<rparr>" 0
      "[[0, 1, 2, 3]]" "projr (LRUIPVRP_ctor 4)" 1]
  by (simp add: LRUIPVRP_ctor_def)

text \<open>
  C5 as stated fails on an entry above the sentinel. With four ways the fill of the way at
  position 0 of the identity stack leaves \<open>[13, 1, 2, 3]\<close>; the invalidation of the way at
  position 1, of rank 1, then leaves the entry 13 as it is, though it is above 1.
\<close>

theorem invalidate_above_sentinel_counterexample:
  "reset (projr (LRUIPVRP_ctor 4)) \<lparr>set_id = 0, index = 0, stack = Some 0\<rparr> [[0, 1, 2, 3]]
   = Inr [[13, 1, 2, 3]]
   \<and> invalidate (projr (LRUIPVRP_ctor 4)) \<lparr>set_id = 0, index = 1, stack = Some 0\<rparr>
       [[13, 1, 2, 3]]
     = Inr [[13, 4, 1, 2]]
   \<and> [13, 1, 2, 3 :: nat] ! 1 < [13, 1, 2, 3] ! 0
   \<and> [13, 4, 1, 2 :: nat] ! 0 \<noteq> [13, 1, 2, 3] ! 0 - 1"
  by (simp add: LRUIPVRP_ctor_def reset_def invalidate_def deref_def vec_at_def vec_index_def
      store_def numWays_minus_1_def eval_nat_numeral)

lemma invalidate_entry_valid:
  "e < W \<Longrightarrow> invalidate_entry r W e = (if e = r then W else if r < e then e - 1 else e)"
  by (simp add: invalidate_entry_def)

lemma invalidate_entry_inj:
  "inj_on (invalidate_entry r W) ({0 ..< W} - {r})"
  by (auto intro!: inj_onI simp: invalidate_entry_valid split: if_splits)

lemma invalidate_entry_image:
  assumes "r < W"
  shows "invalidate_entry r W ` ({0 ..< W} - {r}) = {0 ..< W - 1}"
proof (rule set_eqI, rule iffI)
  fix x assume "x \<in> invalidate_entry r W ` ({0 ..< W} - {r})"
  then show "x \<in> {0 ..< W - 1}"
    using assms by (auto simp: invalidate_entry_valid split: if_splits)
next
  fix x assume x: "x \<in> {0 ..< W - 1}"
  show "x \<in> invalidate_entry r W ` ({0 ..< W} - {r})"
  proof (cases "x < r")
    case True
    then have "x = invalidate_entry r W x" and "x \<in> {0 ..< W} - {r}"
      using x by (simp_all add: invalidate_entry_valid)
    then show ?thesis by (rule image_eqI)
  next
    case False
    then have "x = invalidate_entry r W (Suc x)" and "Suc x \<in> {0 ..< W} - {r}"
      using x by (simp_all add: invalidate_entry_valid)
    then show ?thesis by (rule image_eqI)
  qed
qed

subsection \<open>The stack between an invalidation and the refill\<close>

text \<open>
  The vectors with one sentinel, as sets: the entries are distinct and are the sentinel and
  the ranks below \<open>W - 1\<close>.
\<close>

lemma sentinel_set_length:
  assumes "0 < W" and "distinct s" and "set s = insert W {0 ..< W - 1}"
  shows "length s = W"
proof -
  have "length s = card (set s)"
    using assms(2) by (simp add: distinct_card)
  also have "\<dots> = Suc (card {0 ..< W - 1})"
    unfolding assms(3) by (rule card_insert_disjoint) simp_all
  finally show ?thesis
    using assms(1) by simp
qed

lemma sentinel_set_one_sentinel:
  assumes "0 < W" and "distinct s" and "set s = insert W {0 ..< W - 1}" and "s ! i = W"
  shows "one_sentinel W i s"
proof -
  have len: "length s = W"
    using assms(1,2,3) by (rule sentinel_set_length)
  have "length (filter (\<lambda>e. e = W) s) = card ({e. e = W} \<inter> set s)"
    using assms(2) by (rule distinct_length_filter)
  also have "{e. e = W} \<inter> set s = {W}"
    unfolding assms(3) by blast
  finally have one: "length (filter (\<lambda>e. e = W) s) = 1"
    by simp
  have d: "distinct (filter (\<lambda>e. e \<noteq> W) s)"
    using assms(2) by (rule distinct_filter)
  have "set (filter (\<lambda>e. e \<noteq> W) s) = {e \<in> insert W {0 ..< W - 1}. e \<noteq> W}"
    by (simp only: set_filter assms(3))
  also have "\<dots> = {0 ..< W - 1}"
    using assms(1) by auto
  finally have r: "set (filter (\<lambda>e. e \<noteq> W) s) = {0 ..< W - 1}" .
  show ?thesis
    unfolding one_sentinel_def using len assms(4) one d r by (intro conjI)
qed

lemma sentinel_set_other_rank:
  assumes "distinct s" and "set s = insert W {0 ..< W - 1}" and "s ! i = W"
    and "i < length s" and "j < length s" and "j \<noteq> i"
  shows "s ! j < W - 1"
proof -
  have "s ! j \<noteq> s ! i"
    using assms(1,4,5,6) by (simp add: nth_eq_iff_index_eq)
  moreover have "s ! j \<in> insert W {0 ..< W - 1}"
    using assms(2,5) nth_mem by blast
  ultimately show ?thesis
    using assms(3) by simp
qed

lemma invalidate_entry_sentinel_set:
  assumes "rank_permutation W s" and "r < W"
  shows "distinct (map (invalidate_entry r W) s)"
    and "set (map (invalidate_entry r W) s) = insert W {0 ..< W - 1}"
proof -
  have dist: "distinct s" and set: "set s = {0 ..< W}"
    using assms(1) by (simp_all add: rank_permutation_def)
  have split: "{0 ..< W} = insert r ({0 ..< W} - {r})"
    using assms(2) by auto
  have gr: "invalidate_entry r W r = W"
    by (simp add: invalidate_entry_def)
  have img: "invalidate_entry r W ` ({0 ..< W} - {r}) = {0 ..< W - 1}"
    using assms(2) by (rule invalidate_entry_image)
  have "invalidate_entry r W ` {0 ..< W}
        = insert (invalidate_entry r W r) (invalidate_entry r W ` ({0 ..< W} - {r}))"
    by (subst split) (rule image_insert)
  then show "set (map (invalidate_entry r W) s) = insert W {0 ..< W - 1}"
    by (simp only: set_map set gr img)
  have "inj_on (invalidate_entry r W) (insert r ({0 ..< W} - {r}))"
    unfolding inj_on_insert
    using invalidate_entry_inj [of r W] by (simp add: gr img)
  then have "inj_on (invalidate_entry r W) (set s)"
    by (simp only: set split [symmetric])
  with dist show "distinct (map (invalidate_entry r W) s)"
    by (simp only: distinct_map simp_thms)
qed

lemma touch_entry_sentinel:
  assumes "t < W - 1"
  shows "touch_entry W t n W = W"
proof -
  from assms have "0 < W"
    by simp
  then have "numWays_minus_1 W = W - 1"
    by (rule numWays_minus_1_pos)
  then show ?thesis
    using assms by (simp add: touch_entry_def)
qed

lemma touch_entry_below:
  assumes "n \<le> t" and "t < W - 1"
  shows "inj_on (touch_entry W t n) {0 ..< W - 1}"
    and "touch_entry W t n ` {0 ..< W - 1} = {0 ..< W - 1}"
proof -
  show inj: "inj_on (touch_entry W t n) {0 ..< W - 1}"
    using assms by (auto intro!: inj_onI simp: touch_entry_valid split: if_splits)
  have "touch_entry W t n ` {0 ..< W - 1} \<subseteq> {0 ..< W - 1}"
    using assms by (auto simp: touch_entry_valid)
  then show "touch_entry W t n ` {0 ..< W - 1} = {0 ..< W - 1}"
    using inj by (intro endo_inj_surj) simp_all
qed

lemma touch_entry_sentinel_set:
  assumes "distinct s" and "set s = insert W {0 ..< W - 1}" and "n \<le> t" and "t < W - 1"
  shows "distinct (map (touch_entry W t n) s)"
    and "set (map (touch_entry W t n) s) = insert W {0 ..< W - 1}"
proof -
  note below = touch_entry_below [OF assms(3,4)]
  have fW: "touch_entry W t n W = W"
    using assms(4) by (rule touch_entry_sentinel)
  show "set (map (touch_entry W t n) s) = insert W {0 ..< W - 1}"
    by (simp only: set_map assms(2) image_insert fW below(2))
  have "inj_on (touch_entry W t n) (insert W {0 ..< W - 1})"
    unfolding inj_on_insert using below by (simp add: fW)
  with assms(1) show "distinct (map (touch_entry W t n) s)"
    by (simp only: distinct_map assms(2) simp_thms)
qed

lemma touch_keeps_sentinel:
  assumes "LRUIPVRP_ctor W = Inr p" and "W \<le> 18"
    and "stack rd = Some a" and "a < length h"
    and "distinct (h ! a)" and "set (h ! a) = insert W {0 ..< W - 1}"
    and "h ! a ! i = W" and "i < W"
    and "index rd < W" and "index rd \<noteq> i"
  shows "\<exists>h'. touch p rd h = Inr h' \<and> length h' = length h
              \<and> distinct (h' ! a) \<and> set (h' ! a) = insert W {0 ..< W - 1} \<and> h' ! a ! i = W"
proof -
  define r where "r = h ! a ! index rd"
  define n where "n = promotionVector p ! r"
  define s' where "s' = map (touch_entry W r n) (h ! a)"
  have W: "numWays p = W"
    using assms(1) by (rule ctor_fields)
  have pv: "promotionVector p = [0, 0, 1, 0, 3, 0, 1, 2, 1, 0, 5, 1, 0, 0, 1, 11, 13]"
    using assms(1) by (rule ctor_fields)
  have pos: "0 < W"
    using assms(8) by simp
  have len: "length (h ! a) = W"
    using pos assms(5,6) by (rule sentinel_set_length)
  have rW: "r < W - 1"
    unfolding r_def using assms(5,6,7) by (rule sentinel_set_other_rank) (simp_all add: len assms)
  then have r17: "r < 17"
    using assms(2) by simp
  have le: "n \<le> r"
    unfolding n_def pv using r17 by (rule paper_vector_promotes)
  have rW': "r < W"
    using rW by simp
  have tg: "r = (if h ! a ! index rd \<ge> numWays p then numWays_minus_1 (numWays p)
                 else h ! a ! index rd)"
    using rW' by (simp add: r_def W)
  have t: "touch p rd h = Inr (h[a := s'])"
    unfolding s'_def n_def W [symmetric]
    by (rule touch_heap [OF assms(3,4) _ _ tg]) (insert r17, simp_all add: W pv len assms(9))
  have "s' ! i = touch_entry W r n (h ! a ! i)"
    using assms(8) len by (simp add: s'_def)
  also have "\<dots> = W"
    unfolding assms(7) using rW by (rule touch_entry_sentinel)
  finally have own: "s' ! i = W" .
  note keep = touch_entry_sentinel_set [OF assms(5,6) le rW, folded s'_def]
  have "touch p rd h = Inr (h[a := s']) \<and> length (h[a := s']) = length h
        \<and> distinct (h[a := s'] ! a) \<and> set (h[a := s'] ! a) = insert W {0 ..< W - 1}
        \<and> h[a := s'] ! a ! i = W"
    using t keep own assms(4) by simp
  then show ?thesis
    by (rule exI)
qed

lemma reset_keeps_sentinel:
  assumes "LRUIPVRP_ctor W = Inr p"
    and "stack rd = Some a" and "a < length h"
    and "distinct (h ! a)" and "set (h ! a) = insert W {0 ..< W - 1}"
    and "h ! a ! i = W" and "i < W"
    and "index rd < W" and "index rd \<noteq> i"
    and "promotionVector p ! 16 \<le> h ! a ! index rd"
  shows "\<exists>h'. reset p rd h = Inr h' \<and> length h' = length h
              \<and> distinct (h' ! a) \<and> set (h' ! a) = insert W {0 ..< W - 1} \<and> h' ! a ! i = W"
proof -
  define r where "r = h ! a ! index rd"
  define n where "n = promotionVector p ! 16"
  define s' where "s' = map (touch_entry W r n) (h ! a)"
  have W: "numWays p = W"
    using assms(1) by (rule ctor_fields)
  have pv: "promotionVector p = [0, 0, 1, 0, 3, 0, 1, 2, 1, 0, 5, 1, 0, 0, 1, 11, 13]"
    using assms(1) by (rule ctor_fields)
  have pos: "0 < W"
    using assms(7) by simp
  have len: "length (h ! a) = W"
    using pos assms(4,5) by (rule sentinel_set_length)
  have rW: "r < W - 1"
    unfolding r_def using assms(4,5,6) by (rule sentinel_set_other_rank) (simp_all add: len assms)
  have le: "n \<le> r"
    using assms(10) by (simp only: n_def r_def)
  have rW': "r < W"
    using rW by simp
  have tg: "r = (if h ! a ! index rd \<ge> numWays p then numWays_minus_1 (numWays p)
                 else h ! a ! index rd)"
    using rW' by (simp add: r_def W)
  have t: "reset p rd h = Inr (h[a := s'])"
    unfolding s'_def n_def W [symmetric]
    by (rule reset_heap [OF assms(2,3) _ _ tg]) (simp_all add: W pv len assms(8))
  have "s' ! i = touch_entry W r n (h ! a ! i)"
    using assms(7) len by (simp add: s'_def)
  also have "\<dots> = W"
    unfolding assms(6) using rW by (rule touch_entry_sentinel)
  finally have own: "s' ! i = W" .
  note keep = touch_entry_sentinel_set [OF assms(4,5) le rW, folded s'_def]
  have "reset p rd h = Inr (h[a := s']) \<and> length (h[a := s']) = length h
        \<and> distinct (h[a := s'] ! a) \<and> set (h[a := s'] ! a) = insert W {0 ..< W - 1}
        \<and> h[a := s'] ! a ! i = W"
    using t keep own assms(3) by simp
  then show ?thesis
    by (rule exI)
qed

lemma apply_accesses_sentinel:
  assumes "LRUIPVRP_ctor W = Inr p" and "W \<le> 18" and "i < W"
  shows "a < length h \<Longrightarrow> distinct (h ! a) \<Longrightarrow> set (h ! a) = insert W {0 ..< W - 1} \<Longrightarrow>
         h ! a ! i = W \<Longrightarrow> spares i xs \<Longrightarrow> fills_promote p a xs h \<Longrightarrow>
         \<exists>h'. apply_accesses p xs h = Inr h'
              \<and> distinct (h' ! a) \<and> set (h' ! a) = insert W {0 ..< W - 1} \<and> h' ! a ! i = W"
proof (induction xs arbitrary: h)
  case Nil
  then show ?case by simp
next
  case (Cons x xs)
  have W: "numWays p = W"
    using assms(1) by (rule ctor_fields)
  from Cons.prems(6) have ptr: "stack (way x) = Some a" and idx: "index (way x) < W"
    by (simp_all add: W)
  from Cons.prems(5) have other: "index (way x) \<noteq> i" and rest: "spares i xs"
    by (simp_all add: spares_def)
  have "\<exists>h1. apply_access p x h = Inr h1 \<and> length h1 = length h
             \<and> distinct (h1 ! a) \<and> set (h1 ! a) = insert W {0 ..< W - 1} \<and> h1 ! a ! i = W"
  proof (cases x)
    case (Touch rd)
    then show ?thesis
      using touch_keeps_sentinel [OF assms(1,2), of rd a h i] ptr idx other Cons.prems(1-4)
        assms(3)
      by simp
  next
    case (Reset rd)
    then show ?thesis
      using reset_keeps_sentinel [OF assms(1), of rd a h i] ptr idx other Cons.prems(1-4,6)
        assms(3)
      by simp
  qed
  then obtain h1 where h1: "apply_access p x h = Inr h1" "length h1 = length h"
      "distinct (h1 ! a)" "set (h1 ! a) = insert W {0 ..< W - 1}" "h1 ! a ! i = W"
    by blast
  from Cons.prems(6) h1(1) have "fills_promote p a xs h1"
    by simp
  from Cons.IH [OF _ h1(3,4,5) rest this] Cons.prems(1) h1(2)
  obtain h' where "apply_accesses p xs h1 = Inr h'" "distinct (h' ! a)"
      "set (h' ! a) = insert W {0 ..< W - 1}" "h' ! a ! i = W"
    by auto
  with h1(1) show ?case
    by simp
qed

text \<open>
  C6, as the code has it. After \<^verbatim>\<open>invalidate\<close> on a way of a stack that is a permutation of
  the ranks below \<^verbatim>\<open>numWays\<close>, exactly one entry is the sentinel \<^verbatim>\<open>numWays\<close>, it is the entry
  of the invalidated way, and the other entries are pairwise distinct and are the ranks
  below \<^verbatim>\<open>numWays - 1\<close>. With at most 18 ways (every rank below \<^verbatim>\<open>numWays - 1\<close> is then
  within the promotion vector) this stays so through every following run of \<^verbatim>\<open>touch\<close> and
  \<^verbatim>\<open>reset\<close> calls on the other ways of the set in which every \<^verbatim>\<open>reset\<close> is of a way whose
  rank is at that time not below the insertion rank \<^verbatim>\<open>promotionVector[16]\<close>.
\<close>

theorem invalidate_leaves_one_sentinel:
  assumes "LRUIPVRP_ctor W = Inr p"
    and "stack rd = Some a" and "a < length h"
    and "rank_permutation W (h ! a)"
    and "index rd < W"
  shows "\<exists>h1. invalidate p rd h = Inr h1
              \<and> one_sentinel W (index rd) (h1 ! a)
              \<and> (W \<le> 18 \<and> spares (index rd) xs \<and> fills_promote p a xs h1
                   \<longrightarrow> (\<exists>h2. apply_accesses p xs h1 = Inr h2
                              \<and> one_sentinel W (index rd) (h2 ! a)))"
proof -
  define r where "r = h ! a ! index rd"
  define s1 where "s1 = map (invalidate_entry r W) (h ! a)"
  have W: "numWays p = W"
    using assms(1) by (rule ctor_fields)
  have pos: "0 < W"
    using assms(5) by simp
  have len: "length (h ! a) = W"
    using assms(4) by (rule rank_permutation_length)
  have rW: "r < W"
    unfolding r_def using assms(4,5) by (rule rank_permutation_nth)
  have t: "r = (if h ! a ! index rd \<ge> numWays p then numWays_minus_1 (numWays p)
                else h ! a ! index rd)"
    using rW by (simp add: r_def W)
  have inv: "invalidate p rd h = Inr (h[a := s1])"
    unfolding s1_def W [symmetric]
    by (rule invalidate_heap [OF assms(2,3) _ _ t]) (simp_all add: W len assms(5))
  have upd: "h[a := s1] ! a = s1" and a1: "a < length (h[a := s1])"
    using assms(3) by simp_all
  note sset = invalidate_entry_sentinel_set [OF assms(4) rW, folded s1_def]
  have own: "s1 ! index rd = W"
    using assms(5) len by (simp add: s1_def r_def invalidate_entry_def)
  have first: "one_sentinel W (index rd) s1"
    using pos sset own by (rule sentinel_set_one_sentinel)
  have later: "\<exists>h2. apply_accesses p xs (h[a := s1]) = Inr h2
                    \<and> one_sentinel W (index rd) (h2 ! a)"
    if w: "W \<le> 18" and sp: "spares (index rd) xs" and fp: "fills_promote p a xs (h[a := s1])"
  proof -
    from apply_accesses_sentinel [OF assms(1) w assms(5) a1, of xs]
    obtain h2 where h2: "apply_accesses p xs (h[a := s1]) = Inr h2" "distinct (h2 ! a)"
        "set (h2 ! a) = insert W {0 ..< W - 1}" "h2 ! a ! index rd = W"
      using sset own sp fp by (auto simp only: upd)
    from pos h2(2,3,4) have "one_sentinel W (index rd) (h2 ! a)"
      by (rule sentinel_set_one_sentinel)
    with h2(1) show ?thesis
      by blast
  qed
  have "invalidate p rd h = Inr (h[a := s1])
        \<and> one_sentinel W (index rd) (h[a := s1] ! a)
        \<and> (W \<le> 18 \<and> spares (index rd) xs \<and> fills_promote p a xs (h[a := s1])
             \<longrightarrow> (\<exists>h2. apply_accesses p xs (h[a := s1]) = Inr h2
                        \<and> one_sentinel W (index rd) (h2 ! a)))"
    using inv first later by (simp only: upd simp_thms) blast
  then show ?thesis
    by (rule exI)
qed

theorem invalidate_leaves_one_sentinel_witness:
  "invalidate (projr (LRUIPVRP_ctor 16)) \<lparr>set_id = 0, index = 0, stack = Some 0\<rparr>
     [[0, 1, 2, 3, 4, 5, 6, 7, 8, 9, 10, 11, 12, 13, 14, 15]]
   = Inr [[16, 0, 1, 2, 3, 4, 5, 6, 7, 8, 9, 10, 11, 12, 13, 14]]
   \<and> one_sentinel 16 0 [16, 0, 1, 2, 3, 4, 5, 6, 7, 8, 9, 10, 11, 12, 13, 14]
   \<and> apply_accesses (projr (LRUIPVRP_ctor 16))
       [Touch \<lparr>set_id = 0, index = 3, stack = Some 0\<rparr>,
        Reset \<lparr>set_id = 0, index = 15, stack = Some 0\<rparr>]
       [[16, 0, 1, 2, 3, 4, 5, 6, 7, 8, 9, 10, 11, 12, 13, 14]]
     = Inr [[16, 0, 2, 1, 3, 4, 5, 6, 7, 8, 9, 10, 11, 12, 14, 13]]
   \<and> one_sentinel 16 0 [16, 0, 2, 1, 3, 4, 5, 6, 7, 8, 9, 10, 11, 12, 14, 13]"
proof -
  let ?p = "projr (LRUIPVRP_ctor 16)"
  let ?rd = "\<lparr>set_id = 0, index = 0, stack = Some 0\<rparr>"
  let ?h = "[[0, 1, 2, 3, 4, 5, 6, 7, 8, 9, 10, 11, 12, 13, 14, 15 :: nat]]"
  let ?h1 = "[[16, 0, 1, 2, 3, 4, 5, 6, 7, 8, 9, 10, 11, 12, 13, 14 :: nat]]"
  let ?xs = "[Touch \<lparr>set_id = 0, index = 3, stack = Some 0\<rparr>,
              Reset \<lparr>set_id = 0, index = 15, stack = Some 0\<rparr>]"
  have c: "LRUIPVRP_ctor 16 = Inr ?p"
    by (simp add: LRUIPVRP_ctor_def)
  have perm: "rank_permutation 16 (?h ! 0)"
    by (simp add: rank_permutation_def) code_simp
  have inv: "invalidate ?p ?rd ?h = Inr ?h1"
    by (simp add: LRUIPVRP_ctor_def invalidate_def deref_def vec_at_def store_def
        numWays_minus_1_def eval_nat_numeral)
  have run: "apply_accesses ?p ?xs ?h1
             = Inr [[16, 0, 2, 1, 3, 4, 5, 6, 7, 8, 9, 10, 11, 12, 14, 13]]"
    by (simp add: LRUIPVRP_ctor_def touch_def reset_def deref_def vec_at_def vec_index_def
        store_def numWays_minus_1_def eval_nat_numeral)
  have adm: "fills_promote ?p 0 ?xs ?h1"
    by (simp add: LRUIPVRP_ctor_def touch_def reset_def deref_def vec_at_def vec_index_def
        store_def numWays_minus_1_def eval_nat_numeral)
  have sp: "spares (index ?rd) ?xs"
    by (simp add: spares_def)
  show ?thesis
    using invalidate_leaves_one_sentinel [OF c _ _ perm, of ?rd ?xs] inv run adm sp
    by simp
qed

text \<open>
  C6 as stated fails between the invalidation and the next call on the invalidated way:
  with sixteen ways, after the invalidation of the way at position 0 of the identity stack,
  the fill of the way at position 1, of rank 0, leaves rank 13 twice.
\<close>

theorem fill_after_invalidate_counterexample:
  "invalidate (projr (LRUIPVRP_ctor 16)) \<lparr>set_id = 0, index = 0, stack = Some 0\<rparr>
     [[0, 1, 2, 3, 4, 5, 6, 7, 8, 9, 10, 11, 12, 13, 14, 15]]
   = Inr [[16, 0, 1, 2, 3, 4, 5, 6, 7, 8, 9, 10, 11, 12, 13, 14]]
   \<and> reset (projr (LRUIPVRP_ctor 16)) \<lparr>set_id = 0, index = 1, stack = Some 0\<rparr>
       [[16, 0, 1, 2, 3, 4, 5, 6, 7, 8, 9, 10, 11, 12, 13, 14]]
     = Inr [[16, 13, 1, 2, 3, 4, 5, 6, 7, 8, 9, 10, 11, 12, 13, 14]]
   \<and> \<not> distinct (filter (\<lambda>e. e \<noteq> 16) [16, 13, 1, 2, 3, 4, 5, 6, 7, 8, 9, 10, 11, 12, 13, 14 :: nat])
   \<and> \<not> one_sentinel 16 0 [16, 13, 1, 2, 3, 4, 5, 6, 7, 8, 9, 10, 11, 12, 13, 14]"
proof -
  have "invalidate (projr (LRUIPVRP_ctor 16)) \<lparr>set_id = 0, index = 0, stack = Some 0\<rparr>
     [[0, 1, 2, 3, 4, 5, 6, 7, 8, 9, 10, 11, 12, 13, 14, 15]]
   = Inr [[16, 0, 1, 2, 3, 4, 5, 6, 7, 8, 9, 10, 11, 12, 13, 14]]"
    by (simp add: LRUIPVRP_ctor_def invalidate_def deref_def vec_at_def store_def
        numWays_minus_1_def eval_nat_numeral)
  moreover have "reset (projr (LRUIPVRP_ctor 16)) \<lparr>set_id = 0, index = 1, stack = Some 0\<rparr>
       [[16, 0, 1, 2, 3, 4, 5, 6, 7, 8, 9, 10, 11, 12, 13, 14]]
     = Inr [[16, 13, 1, 2, 3, 4, 5, 6, 7, 8, 9, 10, 11, 12, 13, 14]]"
    by (simp add: LRUIPVRP_ctor_def reset_def deref_def vec_at_def vec_index_def store_def
        numWays_minus_1_def eval_nat_numeral)
  moreover have d: "\<not> distinct (filter (\<lambda>e. e \<noteq> 16)
                      [16, 13, 1, 2, 3, 4, 5, 6, 7, 8, 9, 10, 11, 12, 13, 14 :: nat])"
    by simp
  moreover have "\<not> one_sentinel 16 0 [16, 13, 1, 2, 3, 4, 5, 6, 7, 8, 9, 10, 11, 12, 13, 14]"
    using d unfolding one_sentinel_def by blast
  ultimately show ?thesis
    by (intro conjI)
qed

subsection \<open>getVictim\<close>

lemma getVictim_loop_Cons:
  "getVictim_loop p (c # cs) v0 h =
     (case candidate_rank h c of
        Inl e \<Rightarrow> Inl e
      | Inr v \<Rightarrow> getVictim_loop p cs (if v \<ge> numWays_minus_1 (numWays p) then c else v0) h)"
  by (simp add: candidate_rank_def split: sum.splits)

lemma getVictim_loop_readable:
  "\<forall>c \<in> set cs. readable h c \<Longrightarrow>
   getVictim_loop p cs v0 h =
     Inr (if filter (evictable p h) cs = [] then v0 else last (filter (evictable p h) cs), h)"
proof (induction cs arbitrary: v0)
  case Nil
  then show ?case by simp
next
  case (Cons c cs)
  from Cons.prems obtain v where v: "candidate_rank h c = Inr v"
    by (auto simp: readable_def split: sum.splits)
  from Cons.prems have rest: "\<forall>c \<in> set cs. readable h c"
    by simp
  have ev: "evictable p h c \<longleftrightarrow> v \<ge> numWays_minus_1 (numWays p)"
    by (simp add: evictable_def v)
  show ?case
    unfolding getVictim_loop_Cons v sum.case Cons.IH [OF rest]
    by (simp add: ev)
qed

lemma getVictim_loop_frame:
  "getVictim_loop p cs v0 h = Inr (v, h') \<Longrightarrow> h' = h \<and> (v = v0 \<or> v \<in> set cs)"
proof (induction cs arbitrary: v0)
  case Nil
  then show ?case by simp
next
  case (Cons c cs)
  from Cons.prems obtain r where
    "getVictim_loop p cs (if r \<ge> numWays_minus_1 (numWays p) then c else v0) h = Inr (v, h')"
    unfolding getVictim_loop_Cons by (auto split: sum.splits)
  from Cons.IH [OF this] show ?case
    by (auto split: if_splits)
qed

lemma getVictim_loop_no_assertion:
  "getVictim_loop p cs v0 h \<noteq> Inl AssertionFailed"
proof (induction cs arbitrary: v0)
  case Nil
  then show ?case by simp
next
  case (Cons c cs)
  then show ?case
    by (auto simp: deref_def vec_at_def split: sum.splits option.splits if_splits)
qed

text \<open>
  C7. When every candidate's rank can be read and some candidate's rank is not below
  \<^verbatim>\<open>numWays - 1\<close>, \<^verbatim>\<open>getVictim\<close> returns the last such candidate in the order of the
  collection. The witness is the scenario of four ways with the stack \<open>[2, 0, 3, 1]\<close>: the
  victim is the way at position 2.
\<close>

theorem getVictim_last_evictable:
  assumes "\<forall>c \<in> set candidates. readable h c"
    and "filter (evictable p h) candidates \<noteq> []"
  shows "getVictim p candidates h = Inr (last (filter (evictable p h) candidates), h)"
proof (cases candidates)
  case Nil
  with assms(2) show ?thesis by simp
next
  case (Cons c0 rest)
  then have "getVictim p candidates h = getVictim_loop p candidates c0 h"
    by (simp add: getVictim_def)
  also have "\<dots> = Inr (last (filter (evictable p h) candidates), h)"
    using getVictim_loop_readable [OF assms(1), of p c0] assms(2) by simp
  finally show ?thesis .
qed

theorem getVictim_last_evictable_witness:
  "getVictim (projr (LRUIPVRP_ctor 4))
     [\<lparr>replacementData = \<lparr>set_id = 0, index = 0, stack = Some 0\<rparr>\<rparr>,
      \<lparr>replacementData = \<lparr>set_id = 0, index = 1, stack = Some 0\<rparr>\<rparr>,
      \<lparr>replacementData = \<lparr>set_id = 0, index = 2, stack = Some 0\<rparr>\<rparr>,
      \<lparr>replacementData = \<lparr>set_id = 0, index = 3, stack = Some 0\<rparr>\<rparr>]
     [[2, 0, 3, 1]]
   = Inr (\<lparr>replacementData = \<lparr>set_id = 0, index = 2, stack = Some 0\<rparr>\<rparr>, [[2, 0, 3, 1]])"
  using getVictim_last_evictable [of
      "[\<lparr>replacementData = \<lparr>set_id = 0, index = 0, stack = Some 0\<rparr>\<rparr>,
        \<lparr>replacementData = \<lparr>set_id = 0, index = 1, stack = Some 0\<rparr>\<rparr>,
        \<lparr>replacementData = \<lparr>set_id = 0, index = 2, stack = Some 0\<rparr>\<rparr>,
        \<lparr>replacementData = \<lparr>set_id = 0, index = 3, stack = Some 0\<rparr>\<rparr>]"
      "[[2, 0, 3, 1]]" "projr (LRUIPVRP_ctor 4)"]
  by (simp add: LRUIPVRP_ctor_def readable_def evictable_def candidate_rank_def deref_def
      vec_at_def numWays_minus_1_def)

text \<open>
  C8. On an empty collection \<^verbatim>\<open>getVictim\<close> fails with the assertion. On a non-empty one it
  never fails with the assertion, and when every candidate's rank can be read it returns
  one of the candidates.
\<close>

theorem getVictim_asserts_nonempty:
  "getVictim p [] h = Inl AssertionFailed
   \<and> (candidates \<noteq> [] \<longrightarrow> getVictim p candidates h \<noteq> Inl AssertionFailed)
   \<and> (candidates \<noteq> [] \<and> (\<forall>c \<in> set candidates. readable h c)
        \<longrightarrow> (\<exists>victim. getVictim p candidates h = Inr (victim, h) \<and> victim \<in> set candidates))"
proof (intro conjI impI)
  show "getVictim p [] h = Inl AssertionFailed"
    by (simp add: getVictim_def)
next
  assume "candidates \<noteq> []"
  then obtain c0 rest where c: "candidates = c0 # rest"
    by (cases candidates) auto
  then have "getVictim p candidates h = getVictim_loop p candidates c0 h"
    by (simp add: getVictim_def)
  then show "getVictim p candidates h \<noteq> Inl AssertionFailed"
    by (simp only: getVictim_loop_no_assertion not_False_eq_True)
next
  assume a: "candidates \<noteq> [] \<and> (\<forall>c \<in> set candidates. readable h c)"
  then obtain c0 rest where c: "candidates = c0 # rest"
    by (cases candidates) auto
  then have g: "getVictim p candidates h = getVictim_loop p candidates c0 h"
    by (simp add: getVictim_def)
  from a have "\<exists>victim. getVictim_loop p candidates c0 h = Inr (victim, h)"
    using getVictim_loop_readable [of candidates h p c0] by simp
  then obtain victim where v: "getVictim_loop p candidates c0 h = Inr (victim, h)"
    by blast
  from getVictim_loop_frame [OF v] c have "victim \<in> set candidates"
    by auto
  with v g show "\<exists>victim. getVictim p candidates h = Inr (victim, h) \<and> victim \<in> set candidates"
    by simp
qed

theorem getVictim_asserts_nonempty_witness:
  "getVictim (projr (LRUIPVRP_ctor 4)) [] [[0, 1, 2, 3]] = Inl AssertionFailed
   \<and> getVictim (projr (LRUIPVRP_ctor 4))
       [\<lparr>replacementData = \<lparr>set_id = 0, index = 7, stack = Some 0\<rparr>\<rparr>] [[0, 1, 2, 3]]
     = Inl OutOfRange
   \<and> getVictim (projr (LRUIPVRP_ctor 4))
       [\<lparr>replacementData = \<lparr>set_id = 0, index = 1, stack = Some 0\<rparr>\<rparr>] [[0, 1, 2, 3]]
     = Inr (\<lparr>replacementData = \<lparr>set_id = 0, index = 1, stack = Some 0\<rparr>\<rparr>, [[0, 1, 2, 3]])"
  using getVictim_asserts_nonempty [of "projr (LRUIPVRP_ctor 4)" "[[0, 1, 2, 3]]"
      "[\<lparr>replacementData = \<lparr>set_id = 0, index = 1, stack = Some 0\<rparr>\<rparr>]"]
  by (simp add: getVictim_def readable_def candidate_rank_def deref_def vec_at_def)

text \<open>
  C9. Whatever \<^verbatim>\<open>getVictim\<close> returns, the heap of recency stacks it leaves is the heap it
  was given, and the victim is one of the candidates, as it was passed in.
\<close>

theorem getVictim_reads_only:
  assumes "getVictim p candidates h = Inr (victim, h')"
  shows "h' = h \<and> victim \<in> set candidates"
proof (cases candidates)
  case Nil
  with assms show ?thesis by (simp add: getVictim_def)
next
  case (Cons c0 rest)
  with assms have "getVictim_loop p candidates c0 h = Inr (victim, h')"
    by (simp add: getVictim_def)
  from getVictim_loop_frame [OF this] Cons show ?thesis
    by auto
qed

theorem getVictim_reads_only_witness:
  "getVictim (projr (LRUIPVRP_ctor 4))
     [\<lparr>replacementData = \<lparr>set_id = 0, index = 0, stack = Some 1\<rparr>\<rparr>,
      \<lparr>replacementData = \<lparr>set_id = 0, index = 1, stack = Some 1\<rparr>\<rparr>]
     [[0, 1, 2, 3], [4, 3, 1, 2]]
   = Inr (\<lparr>replacementData = \<lparr>set_id = 0, index = 1, stack = Some 1\<rparr>\<rparr>,
          [[0, 1, 2, 3], [4, 3, 1, 2]])
   \<and> \<lparr>replacementData = \<lparr>set_id = 0, index = 1, stack = Some 1\<rparr>\<rparr>
       \<in> set [\<lparr>replacementData = \<lparr>set_id = 0, index = 0, stack = Some 1\<rparr>\<rparr>,
               \<lparr>replacementData = \<lparr>set_id = 0, index = 1, stack = Some 1\<rparr>\<rparr>]"
proof -
  have run: "getVictim (projr (LRUIPVRP_ctor 4))
     [\<lparr>replacementData = \<lparr>set_id = 0, index = 0, stack = Some 1\<rparr>\<rparr>,
      \<lparr>replacementData = \<lparr>set_id = 0, index = 1, stack = Some 1\<rparr>\<rparr>]
     [[0, 1, 2, 3], [4, 3, 1, 2]]
   = Inr (\<lparr>replacementData = \<lparr>set_id = 0, index = 1, stack = Some 1\<rparr>\<rparr>,
          [[0, 1, 2, 3], [4, 3, 1, 2]])"
    by (simp add: getVictim_def LRUIPVRP_ctor_def deref_def vec_at_def numWays_minus_1_def)
  from getVictim_reads_only [OF run] run show ?thesis
    by (simp only: simp_thms)
qed

text \<open>
  C10. When every candidate's rank can be read and no candidate's rank reaches
  \<^verbatim>\<open>numWays - 1\<close>, \<^verbatim>\<open>getVictim\<close> on a non-empty collection returns its first candidate.
\<close>

theorem getVictim_first_by_default:
  assumes "candidates \<noteq> []"
    and "\<forall>c \<in> set candidates. readable h c"
    and "filter (evictable p h) candidates = []"
  shows "getVictim p candidates h = Inr (candidates ! 0, h)"
proof -
  from assms(1) obtain c0 rest where c: "candidates = c0 # rest"
    by (cases candidates) auto
  then have "getVictim p candidates h = getVictim_loop p candidates c0 h"
    by (simp add: getVictim_def)
  also have "\<dots> = Inr (c0, h)"
    using getVictim_loop_readable [OF assms(2), of p c0] assms(3) by simp
  finally show ?thesis
    by (simp add: c)
qed

theorem getVictim_first_by_default_witness:
  "getVictim (projr (LRUIPVRP_ctor 4))
     [\<lparr>replacementData = \<lparr>set_id = 0, index = 0, stack = Some 0\<rparr>\<rparr>,
      \<lparr>replacementData = \<lparr>set_id = 0, index = 1, stack = Some 0\<rparr>\<rparr>,
      \<lparr>replacementData = \<lparr>set_id = 0, index = 2, stack = Some 0\<rparr>\<rparr>,
      \<lparr>replacementData = \<lparr>set_id = 0, index = 3, stack = Some 0\<rparr>\<rparr>]
     [[1, 0, 2, 1]]
   = Inr (\<lparr>replacementData = \<lparr>set_id = 0, index = 0, stack = Some 0\<rparr>\<rparr>, [[1, 0, 2, 1]])"
  using getVictim_first_by_default [of
      "[\<lparr>replacementData = \<lparr>set_id = 0, index = 0, stack = Some 0\<rparr>\<rparr>,
        \<lparr>replacementData = \<lparr>set_id = 0, index = 1, stack = Some 0\<rparr>\<rparr>,
        \<lparr>replacementData = \<lparr>set_id = 0, index = 2, stack = Some 0\<rparr>\<rparr>,
        \<lparr>replacementData = \<lparr>set_id = 0, index = 3, stack = Some 0\<rparr>\<rparr>]"
      "[[1, 0, 2, 1]]" "projr (LRUIPVRP_ctor 4)"]
  by (simp add: LRUIPVRP_ctor_def readable_def evictable_def candidate_rank_def deref_def
      vec_at_def numWays_minus_1_def)

subsection \<open>Construction and the entries of a set\<close>

lemma ctor_never_fails: "\<exists>p. LRUIPVRP_ctor n = Inr p \<and> numWays p = n"
  by (simp add: LRUIPVRP_ctor_def)

lemma instantiateEntry_identity:
  assumes "0 < numWays p" and "blockInstanceCounter p mod numWays p = 0"
  shows "\<exists>rd p' h'. instantiateEntry p h = Inr (rd, p', h')
           \<and> index rd = 0 \<and> stack rd = tempStack p'
           \<and> deref h' (stack rd) = Inr [0 ..< numWays p]"
  using assms by (simp add: instantiateEntry_def Let_def deref_def)

lemma instantiateEntry_shares:
  assumes "0 < numWays p" and "blockInstanceCounter p mod numWays p \<noteq> 0"
  shows "\<exists>rd p'. instantiateEntry p h = Inr (rd, p', h)
           \<and> index rd = blockInstanceCounter p mod numWays p
           \<and> stack rd = tempStack p \<and> tempStack p' = tempStack p"
  using assms by (simp add: instantiateEntry_def Let_def)

text \<open>
  C3 does not hold of the code. The constructor computes \<^verbatim>\<open>!isPowerOf2(numWays)\<close> only as
  the argument of a debug message that reads "Number of ways must be non-zero and a power
  of 2", and returns the policy whatever the value: with \<^verbatim>\<open>numWays = 3\<close> construction
  succeeds, and the first entry of a set is handed a stack of three ranks.
\<close>

theorem ctor_accepts_three_ways:
  "isPowerOf2 3 = False
   \<and> LRUIPVRP_ctor 3
     = Inr \<lparr>numWays = 3, blockInstanceCounter = 0, tempStack = None,
            promotionVector = [0, 0, 1, 0, 3, 0, 1, 2, 1, 0, 5, 1, 0, 0, 1, 11, 13]\<rparr>
   \<and> instantiateEntry (projr (LRUIPVRP_ctor 3)) []
     = Inr (\<lparr>set_id = 0, index = 0, stack = Some 0\<rparr>,
            \<lparr>numWays = 3, blockInstanceCounter = 1, tempStack = Some 0,
             promotionVector = [0, 0, 1, 0, 3, 0, 1, 2, 1, 0, 5, 1, 0, 0, 1, 11, 13]\<rparr>,
            [[0, 1, 2]])"
proof -
  have "[0 ..< 3] = [0, 1, 2 :: nat]"
    by code_simp
  then show ?thesis
    by (simp add: isPowerOf2_def LRUIPVRP_ctor_def instantiateEntry_def Let_def)
qed

end
